theory Spec2Isabelle
  imports Complex_Main "HOL-Library.Multiset"
begin

section \<open>Decision tree with the Gini criterion (hw5code.py)\<close>

text \<open>
  The embedding follows \<^verbatim>\<open>src/hw5code.py\<close>. A numpy \<^verbatim>\<open>float64\<close> is modelled by an exact
  rational number: rounding, overflow to infinity and NaN of IEEE doubles are outside the model.
  Labels are Python integers. Every exception the code can raise is a value of \<open>error\<close>.
\<close>

datatype error = IndexError | ValueError | KeyError | TypeError

subsection \<open>numpy and collections primitives\<close>

text \<open>\<^verbatim>\<open>np.argsort(a)\<close>: the indices that sort \<open>a\<close>. Entries with equal keys keep their order
  here; \<open>find_best_split\<close> reads the sorted labels only through sums over whole groups of
  equal feature values, which do not depend on the order inside a group.\<close>

definition argsort :: "rat list \<Rightarrow> nat list" where
  "argsort a = sort_key (\<lambda>i. a ! i) [0..<length a]"

text \<open>\<^verbatim>\<open>np.unique(a)\<close>: the sorted distinct values.\<close>

definition unique :: "rat list \<Rightarrow> rat list" where
  "unique a = remdups_adj (sort a)"

text \<open>\<^verbatim>\<open>np.unique(a, return_index=True)[1]\<close>: for every distinct value, in ascending order, the
  index of its first occurrence in \<open>a\<close>.\<close>

definition first_index :: "rat list \<Rightarrow> rat \<Rightarrow> nat" where
  "first_index a v = length (takeWhile (\<lambda>x. x \<noteq> v) a)"

definition unique_index :: "rat list \<Rightarrow> nat list" where
  "unique_index a = map (first_index a) (unique a)"

text \<open>\<^verbatim>\<open>np.cumsum\<close>.\<close>

fun cumsum_from :: "int \<Rightarrow> int list \<Rightarrow> int list" where
  "cumsum_from acc [] = []"
| "cumsum_from acc (x # xs) = (acc + x) # cumsum_from (acc + x) xs"

definition cumsum :: "int list \<Rightarrow> int list" where
  "cumsum xs = cumsum_from 0 xs"

text \<open>\<^verbatim>\<open>np.argmax\<close> on a non-empty vector: the first index holding the maximum.\<close>

fun argmax_from :: "nat \<Rightarrow> rat \<Rightarrow> nat \<Rightarrow> rat list \<Rightarrow> nat" where
  "argmax_from best_i best_v i [] = best_i"
| "argmax_from best_i best_v i (q # qs) =
     (if best_v < q then argmax_from i q (Suc i) qs else argmax_from best_i best_v (Suc i) qs)"

definition argmax :: "rat list \<Rightarrow> nat" where
  "argmax qs = (case qs of [] \<Rightarrow> 0 | q # rest \<Rightarrow> argmax_from 0 q 1 rest)"

subsection \<open>find_best_split\<close>

definition gini_H :: "rat \<Rightarrow> rat" where
  "gini_H p1 = 1 - p1 ^ 2 - (1 - p1) ^ 2"

text \<open>Lines 28 to 66. \<^verbatim>\<open>target_vector[sort_indexes]\<close> raises IndexError when the target is
  shorter than the feature vector and silently drops the tail of a longer one;
  \<^verbatim>\<open>np.argmax\<close> of an empty vector raises ValueError.\<close>

definition find_best_split ::
  "rat list \<Rightarrow> int list \<Rightarrow> error + (rat list \<times> rat list \<times> rat \<times> rat)" where
  "find_best_split feature_vector0 target_vector0 =
    (let sort_indexes = argsort feature_vector0 in
     if \<exists>i \<in> set sort_indexes. length target_vector0 \<le> i then Inl IndexError
     else
      let feature_vector = map (\<lambda>i. feature_vector0 ! i) sort_indexes;
          target_vector = map (\<lambda>i. target_vector0 ! i) sort_indexes;
          feature_vector_unique = unique feature_vector;
          rolled_one_left = tl feature_vector_unique;
          feature_vector_wo_last = butlast feature_vector_unique;
          thresholds = map2 (\<lambda>a b. (a + b) / 2) rolled_one_left feature_vector_wo_last;
          unique_indexes_reversed = unique_index (rev feature_vector);
          unique_indexes = map (\<lambda>i. length feature_vector - i) unique_indexes_reversed;
          length_left = butlast unique_indexes;
          p1_for_lefts = map (\<lambda>l. cumsum target_vector ! (l - 1)) length_left;
          p1 = map2 (\<lambda>s l. rat_of_int s / rat_of_nat l) p1_for_lefts length_left;
          HR_l = map gini_H p1;
          length_rigth = map (\<lambda>l. length feature_vector - l) length_left;
          p1_for_rights = map (\<lambda>s. sum_list target_vector - s) p1_for_lefts;
          p12 = map2 (\<lambda>s l. rat_of_int s / rat_of_nat l) p1_for_rights length_rigth;
          HR_r = map gini_H p12;
          Qs = map2 (\<lambda>(ll, hl) (lr, hr).
                 - rat_of_nat ll / rat_of_nat (length target_vector) * hl
                 - rat_of_nat lr / rat_of_nat (length target_vector) * hr)
                 (zip length_left HR_l) (zip length_rigth HR_r)
      in case Qs of
           [] \<Rightarrow> Inl ValueError
         | q # rest \<Rightarrow> Inr (thresholds, Qs, thresholds ! argmax Qs, fold max rest q))"

subsection \<open>collections.Counter\<close>

text \<open>A \<^verbatim>\<open>Counter\<close> is a dictionary that keeps its keys in the order of first insertion: an
  association list with distinct keys.\<close>

fun counter_add :: "('k \<times> nat) list \<Rightarrow> 'k \<Rightarrow> ('k \<times> nat) list" where
  "counter_add [] k = [(k, 1)]"
| "counter_add ((k', c) # kvs) k =
     (if k = k' then (k', c + 1) # kvs else (k', c) # counter_add kvs k)"

definition Counter :: "'k list \<Rightarrow> ('k \<times> nat) list" where
  "Counter xs = foldl counter_add [] xs"

text \<open>\<^verbatim>\<open>Counter(xs).most_common(1)[0][0]\<close>: \<^verbatim>\<open>most_common(1)\<close> is \<^verbatim>\<open>max\<close> over the items by
  count, which keeps the first of several maximal items. An empty counter makes the \<^verbatim>\<open>[0]\<close>
  raise IndexError.\<close>

fun max_item :: "('k \<times> nat) \<Rightarrow> ('k \<times> nat) list \<Rightarrow> ('k \<times> nat)" where
  "max_item best [] = best"
| "max_item best (kv # kvs) = (if snd best < snd kv then max_item kv kvs else max_item best kvs)"

definition most_common1 :: "'k list \<Rightarrow> error + 'k" where
  "most_common1 xs = (case Counter xs of [] \<Rightarrow> Inl IndexError | kv # kvs \<Rightarrow> Inr (fst (max_item kv kvs)))"

subsection \<open>The tree and the classifier object\<close>

text \<open>A node is the Python dictionary of the source with its seven possible keys; a key that
  was never written is \<open>None\<close>. \<^verbatim>\<open>_fit_node\<close> only writes keys, so keys of an earlier fit can
  survive in the root dictionary \<^verbatim>\<open>self._tree\<close>; the children are always fresh dictionaries.\<close>

datatype node = Node
  (type_key: "string option")
  (class_key: "int option")
  (feature_split: "nat option")
  (threshold: "rat option")
  (categories_split: "rat list option")
  (left_child: "node option")
  (right_child: "node option")

definition empty_dict :: node where
  "empty_dict = Node None None None None None None None"

fun set_type :: "string \<Rightarrow> node \<Rightarrow> node" where
  "set_type v (Node t c f th cs l r) = Node (Some v) c f th cs l r"

fun set_class :: "int \<Rightarrow> node \<Rightarrow> node" where
  "set_class v (Node t c f th cs l r) = Node t (Some v) f th cs l r"

fun set_feature_split :: "nat \<Rightarrow> node \<Rightarrow> node" where
  "set_feature_split v (Node t c f th cs l r) = Node t c (Some v) th cs l r"

fun set_threshold :: "rat \<Rightarrow> node \<Rightarrow> node" where
  "set_threshold v (Node t c f th cs l r) = Node t c f (Some v) cs l r"

fun set_categories_split :: "rat list \<Rightarrow> node \<Rightarrow> node" where
  "set_categories_split v (Node t c f th cs l r) = Node t c f th (Some v) l r"

fun set_left_child :: "node \<Rightarrow> node \<Rightarrow> node" where
  "set_left_child v (Node t c f th cs l r) = Node t c f th cs (Some v) r"

fun set_right_child :: "node \<Rightarrow> node \<Rightarrow> node" where
  "set_right_child v (Node t c f th cs l r) = Node t c f th cs l (Some v)"

text \<open>The constructor arguments, as \<^verbatim>\<open>get_params\<close> returns them. \<open>max_depth = None\<close> stands for
  the default \<^verbatim>\<open>np.inf\<close>; for the two minima \<open>None\<close> is Python's \<^verbatim>\<open>None\<close>.\<close>

record params =
  feature_types :: "string list"
  max_depth :: "int option"
  min_samples_split :: "int option"
  min_samples_leaf :: "int option"

record DecisionTree =
  self_params :: params
  self_tree :: node

definition init ::
  "string list \<Rightarrow> int option \<Rightarrow> int option \<Rightarrow> int option \<Rightarrow> error + DecisionTree" where
  "init ftypes md mss msl =
     (if \<exists>x \<in> set ftypes. x \<noteq> ''real'' \<and> x \<noteq> ''categorical'' then Inl ValueError
      else Inr \<lparr>self_params = \<lparr>feature_types = ftypes, max_depth = md,
                  min_samples_split = mss, min_samples_leaf = msl\<rparr>,
                self_tree = empty_dict\<rparr>)"

text \<open>The sample matrix is a two-dimensional \<^verbatim>\<open>float64\<close> array: its rows and \<^verbatim>\<open>shape[1]\<close>, which
  an array keeps even when it has no rows. Every row of an array has \<open>shape1\<close> entries.\<close>

record ndarray2 =
  shape1 :: nat
  rows :: "rat list list"

definition wf_array :: "ndarray2 \<Rightarrow> bool" where
  "wf_array X = list_all (\<lambda>r. length r = shape1 X) (rows X)"

definition column :: "ndarray2 \<Rightarrow> nat \<Rightarrow> rat list" where
  "column X j = map (\<lambda>r. r ! j) (rows X)"

text \<open>Indexing with a boolean mask, \<^verbatim>\<open>a[mask]\<close>; the caller checks the lengths.\<close>

definition mask_select :: "bool list \<Rightarrow> 'a list \<Rightarrow> 'a list" where
  "mask_select msk xs = map fst (filter snd (zip xs msk))"

definition select_rows :: "bool list \<Rightarrow> ndarray2 \<Rightarrow> ndarray2" where
  "select_rows msk X = X\<lparr>rows := mask_select msk (rows X)\<rparr>"

subsection \<open>_fit_node\<close>

text \<open>\<^verbatim>\<open>threshold_best\<close> holds a number for a real feature and a list of categories for a
  categorical one.\<close>

datatype threshold_value = Thr rat | Cats "rat list"

text \<open>Lines 101 to 117: the categories of the column ranked by their share of label 1.
  \<^verbatim>\<open>sub_X[sub_y == 1, feature]\<close> raises IndexError when the mask and the column differ in
  length. \<^verbatim>\<open>sorted\<close> is stable. Every value of the column is a key of \<open>categories_map\<close>, so the
  lookup of line 116 always finds its key.\<close>

definition encode_categorical ::
  "rat list \<Rightarrow> int list \<Rightarrow> error + (rat list \<times> (rat \<times> nat) list)" where
  "encode_categorical col sub_y =
     (if length sub_y \<noteq> length col then Inl IndexError
      else
       let counts = Counter col;
           clicks = Counter (map fst (filter (\<lambda>(x, l). l = 1) (zip col sub_y)));
           ratio = map (\<lambda>(key, current_count).
                     (key, rat_of_nat (case map_of clicks key of Some c \<Rightarrow> c | None \<Rightarrow> 0)
                             / rat_of_nat current_count)) counts;
           sorted_categories = map fst (sort_key snd ratio);
           categories_map = zip sorted_categories [0..<length sorted_categories];
           feature_vector = map (\<lambda>x. rat_of_nat (the (map_of categories_map x))) col
       in Inr (feature_vector, categories_map))"

text \<open>Lines 95 to 119.\<close>

definition encode_feature ::
  "string \<Rightarrow> rat list \<Rightarrow> int list \<Rightarrow> error + (rat list \<times> (rat \<times> nat) list)" where
  "encode_feature feature_type col sub_y =
     (if feature_type = ''real'' then Inr (col, [])
      else if feature_type = ''categorical'' then encode_categorical col sub_y
      else Inl ValueError)"

text \<open>Lines 137 to 143.\<close>

definition threshold_for ::
  "string \<Rightarrow> rat \<Rightarrow> (rat \<times> nat) list \<Rightarrow> error + threshold_value" where
  "threshold_for feature_type thr categories_map =
     (if feature_type = ''real'' then Inr (Thr thr)
      else if feature_type = ''categorical''
      then Inr (Cats (map fst (filter (\<lambda>x. rat_of_nat (snd x) < thr) categories_map)))
      else Inl ValueError)"

text \<open>The four variables \<^verbatim>\<open>feature_best, threshold_best, gini_best, split\<close> are \<^verbatim>\<open>None\<close> together
  or set together.\<close>

type_synonym best_split = "(nat \<times> threshold_value \<times> rat \<times> bool list) option"

text \<open>The body of the loop over the features, lines 95 to 143.\<close>

definition try_feature ::
  "params \<Rightarrow> ndarray2 \<Rightarrow> int list \<Rightarrow> nat \<Rightarrow> best_split \<Rightarrow> error + best_split" where
  "try_feature self sub_X sub_y feature best =
     (if length (feature_types self) \<le> feature then Inl IndexError
      else
       let feature_type = feature_types self ! feature in
       case encode_feature feature_type (column sub_X feature) sub_y of
         Inl e \<Rightarrow> Inl e
       | Inr (feature_vector, categories_map) \<Rightarrow>
           if length (unique feature_vector) \<le> 1 then Inr best
           else
            case find_best_split feature_vector sub_y of
              Inl e \<Rightarrow> Inl e
            | Inr (_, _, thr, gini) \<Rightarrow>
                let left_size = length (filter (\<lambda>v. v < thr) feature_vector);
                    right_size = length (filter (\<lambda>v. thr \<le> v) feature_vector);
                    subtrees_are_valid =
                      (case min_samples_leaf self of
                         None \<Rightarrow> True
                       | Some m \<Rightarrow> m \<le> int left_size \<and> m \<le> int right_size)
                in if subtrees_are_valid \<and>
                      (case best of None \<Rightarrow> True | Some (_, _, gini_best, _) \<Rightarrow> gini_best < gini)
                   then
                    case threshold_for feature_type thr categories_map of
                      Inl e \<Rightarrow> Inl e
                    | Inr threshold_best \<Rightarrow>
                        Inr (Some (feature, threshold_best, gini,
                                   map (\<lambda>v. v < thr) feature_vector))
                   else Inr best)"

fun fit_features ::
  "params \<Rightarrow> ndarray2 \<Rightarrow> int list \<Rightarrow> nat list \<Rightarrow> best_split \<Rightarrow> error + best_split" where
  "fit_features self sub_X sub_y [] best = Inr best"
| "fit_features self sub_X sub_y (feature # rest) best =
     (case try_feature self sub_X sub_y feature best of
        Inl e \<Rightarrow> Inl e
      | Inr best' \<Rightarrow> fit_features self sub_X sub_y rest best')"

text \<open>Lines 89 to 91.\<close>

definition continue_split_condition :: "params \<Rightarrow> ndarray2 \<Rightarrow> nat \<Rightarrow> bool" where
  "continue_split_condition self sub_X depth =
     (let below = (case max_depth self of None \<Rightarrow> True | Some d \<Rightarrow> int depth < d) in
      case min_samples_split self of
        None \<Rightarrow> below
      | Some m \<Rightarrow> below \<and> m \<le> int (length (rows sub_X)))"

text \<open>Lines 88 to 143.\<close>

definition search_split :: "params \<Rightarrow> ndarray2 \<Rightarrow> int list \<Rightarrow> nat \<Rightarrow> error + best_split" where
  "search_split self sub_X sub_y depth =
     (if continue_split_condition self sub_X depth
      then fit_features self sub_X sub_y [0..<shape1 sub_X] None
      else Inr None)"

text \<open>Lines 145 to 148.\<close>

definition condition_terminal :: "params \<Rightarrow> ndarray2 \<Rightarrow> best_split \<Rightarrow> bool" where
  "condition_terminal self sub_X best =
     (case min_samples_split self of
        Some m \<Rightarrow> best = None \<or> int (length (rows sub_X)) < m
      | None \<Rightarrow> best = None)"

text \<open>Lines 155 to 163. The value of \<^verbatim>\<open>threshold_best\<close> was built under the same entry of
  \<^verbatim>\<open>_feature_types\<close> that is read here, so it has the form the key expects; the two
  \<open>TypeError\<close> branches stand for a mismatch that cannot arise.\<close>

definition store_split :: "params \<Rightarrow> nat \<Rightarrow> threshold_value \<Rightarrow> node \<Rightarrow> error + node" where
  "store_split self feature_best threshold_best node =
     (let node1 = set_feature_split feature_best (set_type ''nonterminal'' node) in
      if length (feature_types self) \<le> feature_best then Inl IndexError
      else if feature_types self ! feature_best = ''real''
      then (case threshold_best of Thr t \<Rightarrow> Inr (set_threshold t node1) | Cats _ \<Rightarrow> Inl TypeError)
      else if feature_types self ! feature_best = ''categorical''
      then (case threshold_best of
              Cats cs \<Rightarrow> Inr (set_categories_split cs node1)
            | Thr _ \<Rightarrow> Inl TypeError)
      else Inl ValueError)"

text \<open>Lines 82 to 166. The dictionary \<open>node\<close> is passed in and returned with the keys written.
  \<^verbatim>\<open>sub_y[0]\<close> raises IndexError on an empty label vector, and \<^verbatim>\<open>sub_y[split]\<close> raises
  IndexError when the mask and the labels differ in length. The right subtree is built only
  when the left one was built without an exception.\<close>

function fit_node :: "params \<Rightarrow> ndarray2 \<Rightarrow> int list \<Rightarrow> node \<Rightarrow> nat \<Rightarrow> error + node" where
  "fit_node self sub_X sub_y node depth =
     (case sub_y of
        [] \<Rightarrow> Inl IndexError
      | y0 # _ \<Rightarrow>
          if \<forall>v \<in> set sub_y. v = y0 then Inr (set_class y0 (set_type ''terminal'' node))
          else
           case search_split self sub_X sub_y depth of
             Inl e \<Rightarrow> Inl e
           | Inr best \<Rightarrow>
               if condition_terminal self sub_X best
               then (case most_common1 sub_y of
                       Inl e \<Rightarrow> Inl e
                     | Inr c \<Rightarrow> Inr (set_class c (set_type ''terminal'' node)))
               else
                (case best of
                   None \<Rightarrow> Inl TypeError
                 | Some (feature_best, threshold_best, gini_best, split) \<Rightarrow>
                     (case store_split self feature_best threshold_best node of
                        Inl e \<Rightarrow> Inl e
                      | Inr node1 \<Rightarrow>
                          if length sub_y \<noteq> length split then Inl IndexError
                          else
                           case fit_node self (select_rows split sub_X) (mask_select split sub_y)
                                  empty_dict (depth + 1) of
                             Inl e \<Rightarrow> Inl e
                           | Inr l \<Rightarrow>
                               (case fit_node self (select_rows (map Not split) sub_X)
                                       (mask_select (map Not split) sub_y) empty_dict (depth + 1) of
                                  Inl e \<Rightarrow> Inl e
                                | Inr r \<Rightarrow> Inr (set_right_child r (set_left_child l node1))))))"
  by pat_completeness auto

subsection \<open>_predict_node, fit and predict\<close>

text \<open>Lines 168 to 181. Reading a key that the dictionary does not hold raises KeyError,
  \<^verbatim>\<open>x[feature]\<close> beyond the end of the row raises IndexError. Any feature type other than
  \<^verbatim>\<open>'real'\<close> takes the categorical branch.\<close>

fun predict_node :: "params \<Rightarrow> rat list \<Rightarrow> node \<Rightarrow> error + int" where
  "predict_node self x (Node t c f th cs l r) =
     (case t of
        None \<Rightarrow> Inl KeyError
      | Some ty \<Rightarrow>
          if ty = ''terminal'' then (case c of None \<Rightarrow> Inl KeyError | Some v \<Rightarrow> Inr v)
          else
           (case f of
              None \<Rightarrow> Inl KeyError
            | Some feature \<Rightarrow>
                if length (feature_types self) \<le> feature then Inl IndexError
                else if feature_types self ! feature = ''real''
                then
                 (if length x \<le> feature then Inl IndexError
                  else
                   case th of
                     None \<Rightarrow> Inl KeyError
                   | Some thv \<Rightarrow>
                       if x ! feature < thv
                       then (case l of None \<Rightarrow> Inl KeyError | Some lc \<Rightarrow> predict_node self x lc)
                       else (case r of None \<Rightarrow> Inl KeyError | Some rc \<Rightarrow> predict_node self x rc))
                else
                 (if length x \<le> feature then Inl IndexError
                  else
                   case cs of
                     None \<Rightarrow> Inl KeyError
                   | Some cats \<Rightarrow>
                       if x ! feature \<in> set cats
                       then (case l of None \<Rightarrow> Inl KeyError | Some lc \<Rightarrow> predict_node self x lc)
                       else (case r of None \<Rightarrow> Inl KeyError | Some rc \<Rightarrow> predict_node self x rc))))"

text \<open>Line 184: \<^verbatim>\<open>fit\<close> checks nothing and writes into the dictionary \<^verbatim>\<open>self._tree\<close> the object
  already holds. An exception leaves no object behind in the model.\<close>

definition fit :: "DecisionTree \<Rightarrow> ndarray2 \<Rightarrow> int list \<Rightarrow> error + DecisionTree" where
  "fit self X y =
     (case fit_node (self_params self) X y (self_tree self) 0 of
        Inl e \<Rightarrow> Inl e
      | Inr n \<Rightarrow> Inr (self\<lparr>self_tree := n\<rparr>))"

text \<open>Lines 186 to 190.\<close>

fun predict_rows :: "params \<Rightarrow> node \<Rightarrow> rat list list \<Rightarrow> error + int list" where
  "predict_rows self tree [] = Inr []"
| "predict_rows self tree (x # xs) =
     (case predict_node self x tree of
        Inl e \<Rightarrow> Inl e
      | Inr c \<Rightarrow>
          (case predict_rows self tree xs of Inl e \<Rightarrow> Inl e | Inr cs \<Rightarrow> Inr (c # cs)))"

definition predict :: "DecisionTree \<Rightarrow> ndarray2 \<Rightarrow> error + int list" where
  "predict self X = predict_rows (self_params self) (self_tree self) (rows X)"

subsection \<open>Auxiliary notions for the proofs\<close>

text \<open>The number of feature values up to \<open>a\<close>, the sum of their labels, and the gain that
  \<open>find_best_split\<close> computes from them; \<open>midpoints\<close> are the means of neighbours.\<close>

definition n_le :: "rat \<Rightarrow> rat list \<Rightarrow> nat" where
  "n_le a xs = length (filter (\<lambda>x. x \<le> a) xs)"

definition s_le :: "rat \<Rightarrow> rat list \<Rightarrow> int list \<Rightarrow> int" where
  "s_le a xs ys = sum_list (map snd (filter (\<lambda>p. fst p \<le> a) (zip xs ys)))"

definition sorted_pairs :: "rat list \<Rightarrow> int list \<Rightarrow> (rat \<times> int) list" where
  "sorted_pairs xs ys = map (\<lambda>i. (xs ! i, ys ! i)) (argsort xs)"

definition midpoints :: "rat list \<Rightarrow> rat list" where
  "midpoints u = map2 (\<lambda>a b. (a + b) / 2) (tl u) (butlast u)"

definition gain_le :: "rat list \<Rightarrow> int list \<Rightarrow> rat \<Rightarrow> rat" where
  "gain_le xs ys a =
     (let ll = n_le a xs; pl = s_le a xs ys; lr = length xs - ll;
          pr = sum_list (take (length xs) ys) - pl
      in - rat_of_nat ll / rat_of_nat (length xs) * gini_H (rat_of_int pl / rat_of_nat ll)
         - rat_of_nat lr / rat_of_nat (length xs) * gini_H (rat_of_int pr / rat_of_nat lr))"

definition best_ok :: "ndarray2 \<Rightarrow> best_split \<Rightarrow> bool" where
  "best_ok X best =
     (case best of
        None \<Rightarrow> True
      | Some (f, t, g, split) \<Rightarrow>
          length split = length (rows X) \<and> True \<in> set split \<and> False \<in> set split)"

subsection \<open>Reference definitions that follow the specification's words\<close>

text \<open>\<open>H_spec\<close> is the impurity \<open>1 - p1\<^sup>2 - p0\<^sup>2\<close> of a set of labels with the two fractions
  counted separately; \<open>Gain_spec\<close> is the gain of a threshold computed from the two sides of the
  split, left = the samples strictly below the threshold and right = the others.\<close>

definition H_spec :: "int list \<Rightarrow> rat" where
  "H_spec S =
     (let p1 = rat_of_nat (count_list S 1) / rat_of_nat (length S);
          p0 = rat_of_nat (count_list S 0) / rat_of_nat (length S)
      in 1 - p1 ^ 2 - p0 ^ 2)"

definition Gain_spec :: "rat list \<Rightarrow> int list \<Rightarrow> rat \<Rightarrow> rat" where
  "Gain_spec xs ys t =
     (let left = map snd (filter (\<lambda>p. fst p < t) (zip xs ys));
          right = map snd (filter (\<lambda>p. t \<le> fst p) (zip xs ys));
          N = length xs
      in - (rat_of_nat (length left) / rat_of_nat N) * H_spec left
         - (rat_of_nat (length right) / rat_of_nat N) * H_spec right)"


section \<open>Properties of the primitives and of find_best_split\<close>

lemma set_argsort: "set (argsort a) = {0..<length a}"
  by (simp add: argsort_def)

lemma length_argsort: "length (argsort a) = length a"
  by (simp add: argsort_def)

lemma mset_argsort: "mset (argsort a) = mset [0..<length a]"
  by (simp add: argsort_def)

lemma map_sort_key: "map f (sort_key f xs) = sort (map f xs)"
  by (rule properties_for_sort[symmetric]) simp_all

lemma take_argsort: "map (\<lambda>i. a ! i) (argsort a) = sort a"
  by (simp add: argsort_def map_sort_key map_nth)

lemma strict_sorted_remdups_adj: "sorted xs \<Longrightarrow> sorted_wrt (<) (remdups_adj xs)"
  by (induction xs rule: remdups_adj.induct) (auto simp: less_le)

lemma unique_strict: "sorted_wrt (<) (unique a)"
  by (simp add: unique_def strict_sorted_remdups_adj)

lemma set_unique: "set (unique a) = set a"
  by (simp add: unique_def)

lemma unique_eq_mset: "mset a = mset b \<Longrightarrow> unique a = unique b"
  by (metis unique_def properties_for_sort mset_sort sorted_sort)

lemma unique_sort: "unique (sort a) = unique a"
  by (rule unique_eq_mset) simp

lemma unique_rev: "unique (rev a) = unique a"
  by (rule unique_eq_mset) simp

lemma cumsum_from_length: "length (cumsum_from acc xs) = length xs"
  by (induction xs arbitrary: acc) auto

lemma cumsum_from_nth: "i < length xs \<Longrightarrow> cumsum_from acc xs ! i = acc + sum_list (take (Suc i) xs)"
proof (induction xs arbitrary: acc i)
  case Nil then show ?case by simp
next
  case (Cons x xs)
  then show ?case by (cases i) (auto simp: algebra_simps)
qed

lemma cumsum_nth: "0 < l \<Longrightarrow> l \<le> length xs \<Longrightarrow> cumsum xs ! (l - 1) = sum_list (take l xs)"
  using cumsum_from_nth[of "l - 1" xs 0] by (simp add: cumsum_def)

lemma argmax_from_props:
  "bi < i \<Longrightarrow> (let k = argmax_from bi bv i qs in
     (k = bi \<and> (\<forall>q \<in> set qs. q \<le> bv)) \<or>
     (i \<le> k \<and> k < i + length qs \<and> bv < qs ! (k - i) \<and> (\<forall>q \<in> set qs. q \<le> qs ! (k - i))
        \<and> (\<forall>j < k - i. qs ! j < qs ! (k - i))))"
proof (induction qs arbitrary: bi bv i)
  case Nil then show ?case by simp
next
  case (Cons q qs)
  show ?case
  proof (cases "bv < q")
    case True
    from Cons.IH[of i "Suc i" q] have IH: "let k = argmax_from i q (Suc i) qs in
     (k = i \<and> (\<forall>q' \<in> set qs. q' \<le> q)) \<or>
     (Suc i \<le> k \<and> k < Suc i + length qs \<and> q < qs ! (k - Suc i) \<and> (\<forall>q' \<in> set qs. q' \<le> qs ! (k - Suc i))
        \<and> (\<forall>j < k - Suc i. qs ! j < qs ! (k - Suc i)))" by simp
    define k where "k = argmax_from i q (Suc i) qs"
    from IH consider (a) "k = i" "\<forall>q' \<in> set qs. q' \<le> q"
      | (b) "Suc i \<le> k" "k < Suc i + length qs" "q < qs ! (k - Suc i)" "\<forall>q' \<in> set qs. q' \<le> qs ! (k - Suc i)"
         "\<forall>j < k - Suc i. qs ! j < qs ! (k - Suc i)"
      unfolding k_def Let_def by blast
    then show ?thesis
    proof cases
      case a
      with True show ?thesis using k_def by (auto simp: Let_def)
    next
      case b
      have kk: "k - i = Suc (k - Suc i)" using b(1) by simp
      have "\<forall>j < k - i. (q # qs) ! j < (q # qs) ! (k - i)"
      proof (intro allI impI)
        fix j assume "j < k - i"
        then show "(q # qs) ! j < (q # qs) ! (k - i)"
          using b kk by (cases j) auto
      qed
      with True b kk show ?thesis using k_def[symmetric] Cons.prems
        by (auto simp: Let_def intro: less_trans less_imp_le order_trans)
    qed
  next
    case False
    from Cons.IH[of bi "Suc i" bv] Cons.prems have IH: "let k = argmax_from bi bv (Suc i) qs in
     (k = bi \<and> (\<forall>q' \<in> set qs. q' \<le> bv)) \<or>
     (Suc i \<le> k \<and> k < Suc i + length qs \<and> bv < qs ! (k - Suc i) \<and> (\<forall>q' \<in> set qs. q' \<le> qs ! (k - Suc i))
        \<and> (\<forall>j < k - Suc i. qs ! j < qs ! (k - Suc i)))" by simp
    define k where "k = argmax_from bi bv (Suc i) qs"
    from IH consider (a) "k = bi" "\<forall>q' \<in> set qs. q' \<le> bv"
      | (b) "Suc i \<le> k" "k < Suc i + length qs" "bv < qs ! (k - Suc i)" "\<forall>q' \<in> set qs. q' \<le> qs ! (k - Suc i)"
         "\<forall>j < k - Suc i. qs ! j < qs ! (k - Suc i)"
      unfolding k_def Let_def by blast
    then show ?thesis
    proof cases
      case a
      with False show ?thesis using k_def by (auto simp: Let_def)
    next
      case b
      have kk: "k - i = Suc (k - Suc i)" using b(1) by simp
      have "\<forall>j < k - i. (q # qs) ! j < (q # qs) ! (k - i)"
      proof (intro allI impI)
        fix j assume "j < k - i"
        then show "(q # qs) ! j < (q # qs) ! (k - i)"
          using b kk False by (cases j) auto
      qed
      with False b kk show ?thesis using k_def[symmetric] Cons.prems
        by (auto simp: Let_def intro: less_trans less_imp_le order_trans)
    qed
  qed
qed

lemma argmax_props:
  assumes "qs \<noteq> []"
  shows "argmax qs < length qs" "\<forall>q \<in> set qs. q \<le> qs ! argmax qs" "\<forall>j < argmax qs. qs ! j < qs ! argmax qs"
proof -
  obtain q rest where qs: "qs = q # rest" using assms by (cases qs) auto
  define k where "k = argmax_from 0 q 1 rest"
  have k: "argmax qs = k" by (simp add: argmax_def qs k_def)
  from argmax_from_props[of 0 1 q rest] have
    "(k = 0 \<and> (\<forall>q' \<in> set rest. q' \<le> q)) \<or>
     (1 \<le> k \<and> k < 1 + length rest \<and> q < rest ! (k - 1) \<and> (\<forall>q' \<in> set rest. q' \<le> rest ! (k - 1))
        \<and> (\<forall>j < k - 1. rest ! j < rest ! (k - 1)))"
    by (simp add: Let_def k_def)
  then consider (a) "k = 0" "\<forall>q' \<in> set rest. q' \<le> q"
    | (b) "1 \<le> k" "k < 1 + length rest" "q < rest ! (k - 1)" "\<forall>q' \<in> set rest. q' \<le> rest ! (k - 1)"
       "\<forall>j < k - 1. rest ! j < rest ! (k - 1)" by blast
  then have "k < length qs \<and> (\<forall>q \<in> set qs. q \<le> qs ! k) \<and> (\<forall>j < k. qs ! j < qs ! k)"
  proof cases
    case a then show ?thesis by (simp add: qs)
  next
    case b
    have kk: "k = Suc (k - 1)" using b(1) by simp
    have "\<forall>j < k. qs ! j < qs ! k"
    proof (intro allI impI)
      fix j assume "j < k"
      then show "qs ! j < qs ! k" using b kk by (cases j) (auto simp: qs nth_Cons')
    qed
    moreover have "\<forall>q \<in> set qs. q \<le> qs ! k" using b kk by (auto simp: qs nth_Cons' intro: less_imp_le)
    ultimately show ?thesis using b by (simp add: qs)
  qed
  then show "argmax qs < length qs" "\<forall>q \<in> set qs. q \<le> qs ! argmax qs" "\<forall>j < argmax qs. qs ! j < qs ! argmax qs"
    by (simp_all add: k)
qed

lemma fold_max_Max: "fold max rest (q::rat) = Max (set (q # rest))"
  by (rule Max.set_eq_fold[symmetric])

lemma takeWhile_neq_desc:
  "sorted (rev zs) \<Longrightarrow> v \<in> set zs \<Longrightarrow> takeWhile (\<lambda>x. x \<noteq> v) zs = takeWhile (\<lambda>x. v < x) (zs :: rat list)"
proof (induction zs)
  case Nil then show ?case by simp
next
  case (Cons z zs)
  show ?case
  proof (cases "z = v")
    case True then show ?thesis by simp
  next
    case False
    with Cons.prems have vin: "v \<in> set zs" by simp
    from Cons.prems have srt: "sorted (rev zs)" and ge: "\<forall>y \<in> set zs. y \<le> z"
      by (auto simp: sorted_append)
    from ge vin False have "v < z" by (auto simp: less_le)
    with Cons.IH[OF srt vin] False show ?thesis by simp
  qed
qed

lemma first_index_rev_sorted:
  assumes "sorted fs" "v \<in> set fs"
  shows "length fs - first_index (rev fs) v = n_le v fs"
proof -
  have "takeWhile (\<lambda>x. x \<noteq> v) (rev fs) = takeWhile (\<lambda>x. v < x) (rev fs)"
    using assms by (intro takeWhile_neq_desc) simp_all
  also have "\<dots> = filter (\<lambda>x. v < x) (rev fs)"
    using filter_equals_takeWhile_sorted_rev[of "\<lambda>x. x" "rev fs" v] assms by simp
  finally have "first_index (rev fs) v = length (filter (\<lambda>x. v < x) fs)"
    by (simp add: first_index_def flip: rev_filter)
  moreover have "length (filter (\<lambda>x. x \<le> v) fs) + length (filter (\<lambda>x. \<not> x \<le> v) fs) = length fs"
    by (rule sum_length_filter_compl)
  moreover have "(\<lambda>x. \<not> x \<le> v) = (\<lambda>x. v < x)" by (auto simp: not_le)
  ultimately show ?thesis by (simp add: n_le_def)
qed

lemma n_le_mset: "mset a = mset b \<Longrightarrow> n_le v a = n_le v b"
  unfolding n_le_def by (metis mset_filter size_mset)

lemma n_le_pos: "v \<in> set xs \<Longrightarrow> 0 < n_le v xs"
  unfolding n_le_def by (auto simp: filter_empty_conv)

lemma n_le_le: "n_le v xs \<le> length xs"
  unfolding n_le_def by simp

lemma filter_le_takeWhile_sorted:
  "sorted (map f xs) \<Longrightarrow> filter (\<lambda>x. f x \<le> (t::rat)) xs = takeWhile (\<lambda>x. f x \<le> t) xs"
proof (induction xs)
  case Nil then show ?case by simp
next
  case (Cons x xs)
  show ?case
  proof (cases "f x \<le> t")
    case True with Cons show ?thesis by simp
  next
    case False
    with Cons.prems have "\<forall>y \<in> set xs. \<not> f y \<le> t" by fastforce
    then have "filter (\<lambda>x. f x \<le> t) xs = []" by (simp add: filter_empty_conv)
    with False show ?thesis by simp
  qed
qed

lemma take_filter_sorted:
  assumes "sorted (map f xs)"
  shows "take (length (filter (\<lambda>x. f x \<le> (t::rat)) xs)) xs = filter (\<lambda>x. f x \<le> t) xs"
proof -
  have "filter (\<lambda>x. f x \<le> t) xs = takeWhile (\<lambda>x. f x \<le> t) xs"
    by (rule filter_le_takeWhile_sorted[OF assms])
  then show ?thesis by (metis takeWhile_eq_take)
qed

lemma sorted_pairs_fst: "map fst (sorted_pairs xs ys) = sort xs"
  by (simp add: sorted_pairs_def comp_def take_argsort)

lemma sorted_pairs_snd: "map snd (sorted_pairs xs ys) = map (\<lambda>i. ys ! i) (argsort xs)"
  by (simp add: sorted_pairs_def comp_def)

lemma zip_nth_upt: "length xs \<le> length ys \<Longrightarrow> map (\<lambda>i. (xs ! i, ys ! i)) [0..<length xs] = zip xs ys"
  by (rule nth_equalityI) auto

lemma mset_sorted_pairs:
  assumes "length xs \<le> length ys"
  shows "mset (sorted_pairs xs ys) = mset (zip xs ys)"
proof -
  have "mset (sorted_pairs xs ys) = image_mset (\<lambda>i. (xs ! i, ys ! i)) (mset (argsort xs))"
    by (simp add: sorted_pairs_def)
  also have "\<dots> = mset (map (\<lambda>i. (xs ! i, ys ! i)) [0..<length xs])"
    by (simp only: mset_argsort mset_map)
  also have "\<dots> = mset (zip xs ys)" by (simp only: zip_nth_upt[OF assms])
  finally show ?thesis .
qed

lemma sum_take_sorted_pairs:
  assumes "length xs \<le> length ys"
  shows "sum_list (take (n_le a xs) (map snd (sorted_pairs xs ys))) = s_le a xs ys"
proof -
  let ?sp = "sorted_pairs xs ys"
  have srt: "sorted (map fst ?sp)" by (simp add: sorted_pairs_fst)
  have "n_le a xs = n_le a (sort xs)" by (rule n_le_mset) simp
  also have "\<dots> = length (filter (\<lambda>p. fst p \<le> a) ?sp)"
    unfolding n_le_def sorted_pairs_fst[of xs ys, symmetric] by (simp add: filter_map comp_def)
  finally have n: "n_le a xs = length (filter (\<lambda>p. fst p \<le> a) ?sp)" .
  have "take (n_le a xs) (map snd ?sp) = map snd (take (n_le a xs) ?sp)" by (simp add: take_map)
  also have "\<dots> = map snd (filter (\<lambda>p. fst p \<le> a) ?sp)"
    unfolding n by (simp only: take_filter_sorted[OF srt])
  finally have "sum_list (take (n_le a xs) (map snd ?sp)) = sum_list (map snd (filter (\<lambda>p. fst p \<le> a) ?sp))"
    by simp
  also have "\<dots> = sum_mset (image_mset snd (filter_mset (\<lambda>p. fst p \<le> a) (mset ?sp)))"
    by (metis mset_filter mset_map sum_mset_sum_list)
  also have "\<dots> = sum_mset (image_mset snd (filter_mset (\<lambda>p. fst p \<le> a) (mset (zip xs ys))))"
    by (simp only: mset_sorted_pairs[OF assms])
  also have "\<dots> = s_le a xs ys"
    unfolding s_le_def by (metis mset_filter mset_map sum_mset_sum_list)
  finally show ?thesis .
qed

lemma sum_sorted_pairs:
  assumes "length xs \<le> length ys"
  shows "sum_list (map snd (sorted_pairs xs ys)) = sum_list (take (length xs) ys)"
proof -
  have "sum_list (map snd (sorted_pairs xs ys)) = sum_mset (image_mset snd (mset (sorted_pairs xs ys)))"
    by (metis mset_map sum_mset_sum_list)
  also have "\<dots> = sum_mset (image_mset snd (mset (zip xs ys)))"
    by (simp only: mset_sorted_pairs[OF assms])
  also have "\<dots> = sum_list (map snd (zip xs ys))" by (metis mset_map sum_mset_sum_list)
  also have "map snd (zip xs ys) = take (length xs) ys"
    using assms by (simp add: map_snd_zip_take min_def)
  finally show ?thesis .
qed

lemma unique_indexes_eq:
  "map (\<lambda>i. length (sort xs) - i) (unique_index (rev (sort xs))) = map (\<lambda>a. n_le a xs) (unique xs)"
proof -
  have "\<And>v. v \<in> set (unique xs) \<Longrightarrow> length (sort xs) - first_index (rev (sort xs)) v = n_le v xs"
  proof -
    fix v assume "v \<in> set (unique xs)"
    then have "v \<in> set (sort xs)" by (simp add: set_unique)
    then have "length (sort xs) - first_index (rev (sort xs)) v = n_le v (sort xs)"
      using first_index_rev_sorted[of "sort xs" v] by simp
    also have "\<dots> = n_le v xs" by (rule n_le_mset) simp
    finally show "length (sort xs) - first_index (rev (sort xs)) v = n_le v xs" .
  qed
  then have "map (\<lambda>v. length (sort xs) - first_index (rev (sort xs)) v) (unique xs)
      = map (\<lambda>a. n_le a xs) (unique xs)"
    by (rule map_cong[OF refl])
  then show ?thesis
    by (simp only: unique_index_def unique_rev unique_sort map_map comp_def)
qed

lemma p1_for_lefts_eq:
  assumes "length xs \<le> length ys"
  shows "map (\<lambda>l. cumsum (map (\<lambda>i. ys ! i) (argsort xs)) ! (l - 1)) (map (\<lambda>a. n_le a xs) (butlast (unique xs)))
       = map (\<lambda>a. s_le a xs ys) (butlast (unique xs))"
proof -
  have "\<And>a. a \<in> set (butlast (unique xs)) \<Longrightarrow>
     cumsum (map (\<lambda>i. ys ! i) (argsort xs)) ! (n_le a xs - 1) = s_le a xs ys"
  proof -
    fix a assume "a \<in> set (butlast (unique xs))"
    then have "a \<in> set (unique xs)" by (rule in_set_butlastD)
    then have "a \<in> set xs" by (simp only: set_unique)
    then have pos: "0 < n_le a xs" by (rule n_le_pos)
    have le: "n_le a xs \<le> length (map (\<lambda>i. ys ! i) (argsort xs))"
      by (simp add: length_argsort n_le_le)
    have "cumsum (map (\<lambda>i. ys ! i) (argsort xs)) ! (n_le a xs - 1)
        = sum_list (take (n_le a xs) (map (\<lambda>i. ys ! i) (argsort xs)))"
      by (rule cumsum_nth[OF pos le])
    also have "\<dots> = s_le a xs ys"
      using sum_take_sorted_pairs[OF assms, of a] by (simp only: sorted_pairs_snd)
    finally show "cumsum (map (\<lambda>i. ys ! i) (argsort xs)) ! (n_le a xs - 1) = s_le a xs ys" .
  qed
  then have "map (\<lambda>a. cumsum (map (\<lambda>i. ys ! i) (argsort xs)) ! (n_le a xs - 1)) (butlast (unique xs))
       = map (\<lambda>a. s_le a xs ys) (butlast (unique xs))"
    by (rule map_cong[OF refl])
  then show ?thesis
    by (simp only: map_map comp_def)
qed

lemma Qs_collapse:
  "map2 (\<lambda>(ll, hl) (lr, hr). - rat_of_nat ll / rat_of_nat N * hl - rat_of_nat lr / rat_of_nat N * hr)
     (zip (map nl B) (map gini_H (map2 (\<lambda>s l. rat_of_int s / rat_of_nat l) (map sl B) (map nl B))))
     (zip (map (\<lambda>l. M - l) (map nl B))
        (map gini_H (map2 (\<lambda>s l. rat_of_int s / rat_of_nat l)
           (map (\<lambda>s. T - s) (map sl B)) (map (\<lambda>l. M - l) (map nl B)))))
   = map (\<lambda>a. - rat_of_nat (nl a) / rat_of_nat N * gini_H (rat_of_int (sl a) / rat_of_nat (nl a))
              - rat_of_nat (M - nl a) / rat_of_nat N * gini_H (rat_of_int (T - sl a) / rat_of_nat (M - nl a))) B"
  by (induction B) simp_all

lemma find_best_split_char:
  assumes "length xs \<le> length ys"
  shows "find_best_split xs ys =
     (let u = unique xs; Qs = map (gain_le xs ys) (butlast u)
      in case Qs of
           [] \<Rightarrow> Inl ValueError
         | q # rest \<Rightarrow> Inr (midpoints u, Qs, midpoints u ! argmax Qs, fold max rest q))"
proof -
  define ts where "ts = map (\<lambda>i. ys ! i) (argsort xs)"
  define LL where "LL = butlast (map (\<lambda>i. length (sort xs) - i) (unique_index (rev (sort xs))))"
  define P1L where "P1L = map (\<lambda>l. cumsum ts ! (l - 1)) LL"
  define QS where "QS = map2 (\<lambda>(ll, hl) (lr, hr).
       - rat_of_nat ll / rat_of_nat (length ts) * hl - rat_of_nat lr / rat_of_nat (length ts) * hr)
     (zip LL (map gini_H (map2 (\<lambda>s l. rat_of_int s / rat_of_nat l) P1L LL)))
     (zip (map (\<lambda>l. length (sort xs) - l) LL)
        (map gini_H (map2 (\<lambda>s l. rat_of_int s / rat_of_nat l)
           (map (\<lambda>s. sum_list ts - s) P1L) (map (\<lambda>l. length (sort xs) - l) LL))))"
  have noerr: "(\<exists>i \<in> set (argsort xs). length ys \<le> i) = False"
    using assms by (auto simp: set_argsort)
  have fbs: "find_best_split xs ys =
     (case QS of [] \<Rightarrow> Inl ValueError
      | q # rest \<Rightarrow> Inr (midpoints (unique xs), QS, midpoints (unique xs) ! argmax QS, fold max rest q))"
    unfolding find_best_split_def Let_def QS_def P1L_def LL_def ts_def midpoints_def
    by (simp only: noerr if_False take_argsort unique_sort)
  have ll: "LL = map (\<lambda>a. n_le a xs) (butlast (unique xs))"
    unfolding LL_def by (simp only: unique_indexes_eq map_butlast)
  have p1l: "P1L = map (\<lambda>a. s_le a xs ys) (butlast (unique xs))"
    unfolding P1L_def ll ts_def by (rule p1_for_lefts_eq[OF assms])
  have tot: "sum_list ts = sum_list (take (length xs) ys)"
    unfolding ts_def using sum_sorted_pairs[OF assms] by (simp only: sorted_pairs_snd)
  have len: "length ts = length xs" "length (sort xs) = length xs"
    by (simp_all add: ts_def length_argsort)
  have "QS = map (gain_le xs ys) (butlast (unique xs))"
    unfolding QS_def ll p1l Qs_collapse tot len
    by (simp add: gain_le_def Let_def)
  with fbs show ?thesis by (simp only: Let_def)
qed

lemma length_midpoints: "length (midpoints u) = length u - 1"
  by (simp add: midpoints_def)

lemma nth_midpoints:
  "i < length u - 1 \<Longrightarrow> midpoints u ! i = (u ! Suc i + u ! i) / 2"
  by (simp add: midpoints_def nth_tl nth_butlast)

lemma strict_sorted_nth_less:
  "sorted_wrt (<) (u :: rat list) \<Longrightarrow> i < j \<Longrightarrow> j < length u \<Longrightarrow> u ! i < u ! j"
  by (simp add: sorted_wrt_nth_less)

lemma midpoint_between:
  assumes "sorted_wrt (<) (u :: rat list)" "i < length u - 1"
  shows "u ! i < midpoints u ! i" "midpoints u ! i < u ! Suc i"
proof -
  have "u ! i < u ! Suc i" using assms by (intro strict_sorted_nth_less) auto
  then show "u ! i < midpoints u ! i" "midpoints u ! i < u ! Suc i"
    using assms(2) by (simp_all add: nth_midpoints field_simps)
qed

lemma strict_sorted_gap:
  assumes "sorted_wrt (<) (u :: rat list)" "i < length u - 1" "x \<in> set u"
  shows "x \<le> u ! i \<or> u ! Suc i \<le> x"
proof -
  from assms(3) obtain j where j: "j < length u" "x = u ! j" by (auto simp: in_set_conv_nth)
  have srt: "sorted u" using assms(1) by (simp add: strict_sorted_iff)
  show ?thesis
  proof (cases "j \<le> i")
    case True
    then have "u ! j \<le> u ! i" using srt assms(2) by (intro sorted_nth_mono) auto
    then show ?thesis using j by simp
  next
    case False
    then have "Suc i \<le> j" by simp
    then have "u ! Suc i \<le> u ! j" using srt j by (intro sorted_nth_mono) auto
    then show ?thesis using j by simp
  qed
qed

lemma midpoints_strict_sorted:
  assumes "sorted_wrt (<) (u :: rat list)"
  shows "sorted_wrt (<) (midpoints u)"
proof -
  have "\<And>i j. i < j \<Longrightarrow> j < length (midpoints u) \<Longrightarrow> midpoints u ! i < midpoints u ! j"
  proof -
    fix i j assume ij: "i < j" "j < length (midpoints u)"
    then have j: "j < length u - 1" and i: "i < length u - 1" by (simp_all add: length_midpoints)
    have "midpoints u ! i < u ! Suc i" by (rule midpoint_between[OF assms i])
    also have "u ! Suc i \<le> u ! j"
    proof (cases "Suc i = j")
      case True then show ?thesis by simp
    next
      case False
      with ij have "Suc i < j" by simp
      moreover have "j < length u" using j by simp
      ultimately have "u ! Suc i < u ! j" by (rule strict_sorted_nth_less[OF assms])
      then show ?thesis by simp
    qed
    also have "u ! j < midpoints u ! j" by (rule midpoint_between[OF assms j])
    finally show "midpoints u ! i < midpoints u ! j" .
  qed
  then show ?thesis by (simp add: sorted_wrt_iff_nth_less)
qed

text \<open>What a successful call returns.\<close>

lemma find_best_split_Inr:
  assumes "length xs \<le> length ys" "2 \<le> length (unique xs)"
  shows "find_best_split xs ys =
     Inr (midpoints (unique xs), map (gain_le xs ys) (butlast (unique xs)),
          midpoints (unique xs) ! argmax (map (gain_le xs ys) (butlast (unique xs))),
          Max (set (map (gain_le xs ys) (butlast (unique xs)))))"
proof -
  let ?Qs = "map (gain_le xs ys) (butlast (unique xs))"
  have "?Qs \<noteq> []" using assms(2) by (cases "unique xs" rule: rev_cases) auto
  then obtain q rest where qs: "?Qs = q # rest" by (cases ?Qs) auto
  have "fold max rest q = Max (set ?Qs)" unfolding qs by (rule fold_max_Max)
  then show ?thesis
    unfolding find_best_split_char[OF assms(1)] Let_def using qs by simp
qed

lemma find_best_split_short:
  assumes "length ys < length xs"
  shows "find_best_split xs ys = Inl IndexError"
proof -
  have "length xs - 1 \<in> set (argsort xs)" using assms by (simp add: set_argsort)
  moreover have "length ys \<le> length xs - 1" using assms by simp
  ultimately have "\<exists>i \<in> set (argsort xs). length ys \<le> i" by blast
  then show ?thesis by (simp add: find_best_split_def)
qed

lemma argmax_map_less:
  "xs \<noteq> [] \<Longrightarrow> argmax (map f xs) < length xs"
  using argmax_props(1)[of "map f xs"] by simp

lemma best_threshold_between:
  assumes "find_best_split xs ys = Inr (ths, Qs, tb, gb)" "2 \<le> length (unique xs)"
  shows "\<exists>a \<in> set xs. \<exists>b \<in> set xs. a < tb \<and> tb < b"
proof -
  have len: "length xs \<le> length ys"
    using assms(1) find_best_split_short[of ys xs] by (cases "length xs \<le> length ys") auto
  let ?u = "unique xs"
  let ?k = "argmax (map (gain_le xs ys) (butlast ?u))"
  have ne: "butlast ?u \<noteq> []" using assms(2) by (cases ?u rule: rev_cases) auto
  have k: "?k < length ?u - 1" using argmax_map_less[OF ne, of "gain_le xs ys"] by simp
  have tb: "tb = midpoints ?u ! ?k"
    using assms(1) unfolding find_best_split_Inr[OF len assms(2)] by auto
  have "?u ! ?k \<in> set ?u" "?u ! Suc ?k \<in> set ?u" using k by (auto intro: nth_mem)
  then have "?u ! ?k \<in> set xs" "?u ! Suc ?k \<in> set xs" by (simp_all add: set_unique)
  moreover have "?u ! ?k < tb" "tb < ?u ! Suc ?k"
    unfolding tb by (rule midpoint_between[OF unique_strict k])+
  ultimately show ?thesis by blast
qed

lemma split_proper:
  assumes "find_best_split fv ys = Inr (ths, Qs, tb, gb)" "2 \<le> length (unique fv)"
  shows "True \<in> set (map (\<lambda>v. v < tb) fv)" "False \<in> set (map (\<lambda>v. v < tb) fv)"
proof -
  from best_threshold_between[OF assms] obtain a b where
    "a \<in> set fv" "b \<in> set fv" "a < tb" "tb < b" by blast
  then have "(a < tb) \<in> set (map (\<lambda>v. v < tb) fv)" "(b < tb) \<in> set (map (\<lambda>v. v < tb) fv)"
    unfolding set_map by (blast intro: imageI)+
  moreover have "(a < tb) = True" "(b < tb) = False" using \<open>a < tb\<close> \<open>tb < b\<close> by simp_all
  ultimately show "True \<in> set (map (\<lambda>v. v < tb) fv)" "False \<in> set (map (\<lambda>v. v < tb) fv)"
    by (simp_all only:)
qed

lemma length_mask_select:
  "length msk = length xs \<Longrightarrow> length (mask_select msk xs) = length (filter (\<lambda>b. b) msk)"
proof (induction msk arbitrary: xs)
  case Nil then show ?case by (simp add: mask_select_def)
next
  case (Cons b msk)
  then obtain x xs' where xs: "xs = x # xs'" by (cases xs) auto
  with Cons.prems have "length msk = length xs'" by simp
  from Cons.IH[OF this] show ?case by (simp add: xs mask_select_def)
qed

lemma mask_select_shorter:
  assumes "length msk = length xs" "False \<in> set msk"
  shows "length (mask_select msk xs) < length xs"
proof -
  have "length (filter (\<lambda>b. b) msk) < length msk"
    using assms(2) by (intro length_filter_less[of False]) auto
  then show ?thesis using assms(1) by (simp add: length_mask_select)
qed

lemma mask_select_Not_shorter:
  assumes "length msk = length xs" "True \<in> set msk"
  shows "length (mask_select (map Not msk) xs) < length xs"
proof -
  have "False \<in> set (map Not msk)" using assms(2) by force
  then show ?thesis using mask_select_shorter[of "map Not msk" xs] assms(1) by simp
qed

lemma encode_categorical_length:
  "encode_categorical col y = Inr (fv, cm) \<Longrightarrow> length fv = length col"
  by (auto simp: encode_categorical_def Let_def split: if_splits)

lemma encode_feature_length:
  "encode_feature ft col y = Inr (fv, cm) \<Longrightarrow> length fv = length col"
  by (auto simp: encode_feature_def encode_categorical_length split: if_splits)

lemma try_feature_best_ok:
  assumes "try_feature self X y feature best = Inr best'" "best_ok X best"
  shows "best_ok X best'"
proof (cases "best' = best")
  case True with assms(2) show ?thesis by simp
next
  case False
  from assms(1) False obtain fv cm ths Qs thr gini tbest where
    enc: "encode_feature (feature_types self ! feature) (column X feature) y = Inr (fv, cm)"
    and uniq: "\<not> length (unique fv) \<le> 1"
    and fbs: "find_best_split fv y = Inr (ths, Qs, thr, gini)"
    and b': "best' = Some (feature, tbest, gini, map (\<lambda>v. v < thr) fv)"
    unfolding try_feature_def Let_def
    by (auto split: if_splits sum.splits prod.splits)
  have len: "length fv = length (rows X)"
    using encode_feature_length[OF enc] by (simp add: column_def)
  have "2 \<le> length (unique fv)" using uniq by simp
  from split_proper[OF fbs this] len show ?thesis
    unfolding best_ok_def b' by simp
qed

lemma fit_features_best_ok:
  "fit_features self X y fs best = Inr best' \<Longrightarrow> best_ok X best \<Longrightarrow> best_ok X best'"
proof (induction fs arbitrary: best)
  case Nil then show ?case by simp
next
  case (Cons f fs)
  from Cons.prems(1) obtain b1 where t: "try_feature self X y f best = Inr b1"
    and r: "fit_features self X y fs b1 = Inr best'"
    by (auto split: sum.splits)
  from Cons.IH[OF r try_feature_best_ok[OF t Cons.prems(2)]] show ?case .
qed

lemma search_split_best_ok:
  "search_split self X y depth = Inr best \<Longrightarrow> best_ok X best"
  unfolding search_split_def
  by (auto split: if_splits dest: fit_features_best_ok simp: best_ok_def)

lemma search_split_Some:
  assumes "search_split self X y depth = Inr (Some (f, t, g, split))"
  shows "length split = length (rows X)" "True \<in> set split" "False \<in> set split"
  using search_split_best_ok[OF assms] by (simp_all add: best_ok_def)

termination fit_node
proof (relation "measure (\<lambda>(self, X, y, node, depth). length (rows X))")
  show "wf (measure (\<lambda>(self, X, y, node, depth). length (rows X)))" by simp
next
  fix self :: params and sub_X :: ndarray2 and sub_y :: "int list" and node :: node and depth :: nat
    and best x22 and feature_best y xa threshold_best ya xb gini_best split
  assume "search_split self sub_X sub_y depth = Inr best" "best = Some y"
    "(feature_best, xa) = y" "(threshold_best, ya) = xa" "(gini_best, split) = ya"
  then have "search_split self sub_X sub_y depth = Inr (Some (feature_best, threshold_best, gini_best, split))"
    by simp
  from search_split_Some[OF this]
  show "((self, select_rows split sub_X, mask_select split sub_y, empty_dict, depth + 1),
         self, sub_X, sub_y, node, depth) \<in> measure (\<lambda>(self, X, y, node, depth). length (rows X))"
    by (simp add: select_rows_def mask_select_shorter)
next
  fix self :: params and sub_X :: ndarray2 and sub_y :: "int list" and node :: node and depth :: nat
    and best x22 and feature_best y xa threshold_best ya xb gini_best split
  assume "search_split self sub_X sub_y depth = Inr best" "best = Some y"
    "(feature_best, xa) = y" "(threshold_best, ya) = xa" "(gini_best, split) = ya"
  then have "search_split self sub_X sub_y depth = Inr (Some (feature_best, threshold_best, gini_best, split))"
    by simp
  from search_split_Some[OF this]
  show "((self, select_rows (map Not split) sub_X, mask_select (map Not split) sub_y, empty_dict, depth + 1),
         self, sub_X, sub_y, node, depth) \<in> measure (\<lambda>(self, X, y, node, depth). length (rows X))"
    by (simp add: select_rows_def mask_select_Not_shorter)
qed
text \<open>The defining equation of \<open>fit_node\<close> is unfolded by hand, one call at a time.\<close>

declare fit_node.simps [simp del]


lemma unique_sorted_list_of_set: "unique xs = sorted_list_of_set (set xs)"
proof (rule sorted_distinct_set_unique)
  show "sorted (unique xs)" "distinct (unique xs)"
    using unique_strict[of xs] by (simp_all add: strict_sorted_iff)
  show "sorted (sorted_list_of_set (set xs))" "distinct (sorted_list_of_set (set xs))" by simp_all
  show "set (unique xs) = set (sorted_list_of_set (set xs))" by (simp add: set_unique)
qed

lemma length_unique: "length (unique xs) = card (set xs)"
  by (simp add: unique_sorted_list_of_set)

lemma midpoints_nth_form:
  "midpoints u = map (\<lambda>i. (u ! i + u ! Suc i) / 2) [0..<length u - 1]"
  by (rule nth_equalityI) (simp_all add: length_midpoints nth_midpoints add.commute)

lemma midpoint_splits:
  assumes "i < length (unique xs) - 1"
  shows "\<exists>a \<in> set xs. \<exists>b \<in> set xs. a < midpoints (unique xs) ! i \<and> midpoints (unique xs) ! i < b"
    and "midpoints (unique xs) ! i \<notin> set xs"
    and "\<And>x. x \<in> set xs \<Longrightarrow> (x < midpoints (unique xs) ! i) = (x \<le> unique xs ! i)"
proof -
  let ?u = "unique xs"
  let ?t = "midpoints ?u ! i"
  have lt: "?u ! i < ?t" "?t < ?u ! Suc i" by (rule midpoint_between[OF unique_strict assms])+
  have "?u ! i \<in> set ?u" "?u ! Suc i \<in> set ?u" using assms by (auto intro: nth_mem)
  then have mem: "?u ! i \<in> set xs" "?u ! Suc i \<in> set xs" by (simp_all add: set_unique)
  with lt show "\<exists>a \<in> set xs. \<exists>b \<in> set xs. a < ?t \<and> ?t < b" by blast
  have gap: "\<And>x. x \<in> set xs \<Longrightarrow> x \<le> ?u ! i \<or> ?u ! Suc i \<le> x"
    using strict_sorted_gap[OF unique_strict assms] by (simp add: set_unique)
  show "?t \<notin> set xs"
  proof
    assume "?t \<in> set xs"
    from gap[OF this] lt show False by auto
  qed
  show "\<And>x. x \<in> set xs \<Longrightarrow> (x < ?t) = (x \<le> ?u ! i)"
    using gap lt by force
qed

lemma sum_list_filter_compl:
  "sum_list (map f (filter P xs)) + sum_list (map f (filter (\<lambda>x. \<not> P x) xs)) = (sum_list (map f xs) :: int)"
  by (induction xs) auto

lemma binary_count_one:
  "set S \<subseteq> {0, 1} \<Longrightarrow> int (count_list S 1) = sum_list (S :: int list)"
  by (induction S) auto

lemma binary_count_zero:
  "set S \<subseteq> {0, 1} \<Longrightarrow> count_list S 0 + count_list S 1 = length (S :: int list)"
  by (induction S) auto

lemma H_spec_binary:
  assumes "set S \<subseteq> {0, 1}" "S \<noteq> []"
  shows "H_spec S = gini_H (rat_of_int (sum_list S) / rat_of_nat (length S))"
proof -
  have c1: "rat_of_nat (count_list S 1) = rat_of_int (sum_list S)"
    using binary_count_one[OF assms(1)] by (metis of_int_of_nat_eq)
  have "rat_of_nat (count_list S 0) + rat_of_nat (count_list S 1) = rat_of_nat (length S)"
    using binary_count_zero[OF assms(1)] by (metis of_nat_add)
  then have c0: "rat_of_nat (count_list S 0) = rat_of_nat (length S) - rat_of_int (sum_list S)"
    using c1 by simp
  have n: "rat_of_nat (length S) \<noteq> 0" using assms(2) by simp
  have "rat_of_nat (count_list S 0) / rat_of_nat (length S)
      = 1 - rat_of_int (sum_list S) / rat_of_nat (length S)"
    unfolding c0 using n by (simp add: diff_divide_distrib)
  then show ?thesis
    unfolding H_spec_def gini_H_def Let_def c1 by simp
qed

lemma gain_le_eq_Gain_spec:
  assumes len: "length ys = length xs" and bin: "set ys \<subseteq> {0, 1}"
    and i: "i < length (unique xs) - 1"
  shows "gain_le xs ys (unique xs ! i) = Gain_spec xs ys (midpoints (unique xs) ! i)"
proof -
  let ?u = "unique xs"
  let ?a = "?u ! i"
  let ?t = "midpoints ?u ! i"
  let ?z = "zip xs ys"
  have fstmem: "\<And>p. p \<in> set ?z \<Longrightarrow> fst p \<in> set xs"
    by (metis prod.collapse set_zip_leftD)
  have lf: "filter (\<lambda>p. fst p < ?t) ?z = filter (\<lambda>p. fst p \<le> ?a) ?z"
    by (rule filter_cong[OF refl]) (simp add: midpoint_splits(3)[OF i] fstmem)
  have rf: "filter (\<lambda>p. ?t \<le> fst p) ?z = filter (\<lambda>p. \<not> fst p \<le> ?a) ?z"
  proof (rule filter_cong[OF refl])
    fix p assume "p \<in> set ?z"
    then have "(fst p < ?t) = (fst p \<le> ?a)" by (simp add: midpoint_splits(3)[OF i] fstmem)
    then show "(?t \<le> fst p) = (\<not> fst p \<le> ?a)" by (auto simp: not_less[symmetric])
  qed
  let ?L = "map snd (filter (\<lambda>p. fst p \<le> ?a) ?z)"
  let ?R = "map snd (filter (\<lambda>p. \<not> fst p \<le> ?a) ?z)"
  have mf: "map fst ?z = xs" using len by simp
  have ms: "map snd ?z = ys" using len by simp
  have lenL: "length ?L = n_le ?a xs"
  proof -
    have "length ?L = length (filter (\<lambda>x. x \<le> ?a) (map fst ?z))"
      by (simp add: filter_map comp_def)
    then show ?thesis by (simp only: mf n_le_def)
  qed
  have "length (filter (\<lambda>p. fst p \<le> ?a) ?z) + length (filter (\<lambda>p. \<not> fst p \<le> ?a) ?z) = length ?z"
    by (rule sum_length_filter_compl)
  then have lenR: "length ?R = length xs - n_le ?a xs"
    using lenL len by simp
  have sumL: "sum_list ?L = s_le ?a xs ys" by (simp add: s_le_def)
  have "sum_list ?L + sum_list ?R = sum_list (map snd ?z)"
    by (rule sum_list_filter_compl)
  then have sumR: "sum_list ?R = sum_list ys - s_le ?a xs ys"
    using sumL ms by simp
  have amem: "?a \<in> set xs" "?u ! Suc i \<in> set xs"
    using i nth_mem[of i ?u] nth_mem[of "Suc i" ?u] by (simp_all add: set_unique)
  have lt: "?a < ?u ! Suc i" using strict_sorted_nth_less[OF unique_strict, of i "Suc i" xs] i by simp
  have posL: "0 < n_le ?a xs" by (rule n_le_pos[OF amem(1)])
  have "\<not> ?u ! Suc i \<le> ?a" using lt by simp
  with amem(2) have "\<exists>x \<in> set xs. \<not> x \<le> ?a" by blast
  then have "filter (\<lambda>x. \<not> x \<le> ?a) xs \<noteq> []"
    by (simp add: filter_empty_conv)
  then have "0 < length (filter (\<lambda>x. \<not> x \<le> ?a) xs)" by (rule iffD2[OF length_greater_0_conv])
  moreover have "length (filter (\<lambda>x. x \<le> ?a) xs) + length (filter (\<lambda>x. \<not> x \<le> ?a) xs) = length xs"
    by (rule sum_length_filter_compl)
  ultimately have posR: "0 < length xs - n_le ?a xs" unfolding n_le_def by linarith
  have neL: "?L \<noteq> []" using lenL posL by (metis length_0_conv less_numeral_extra(3))
  have neR: "?R \<noteq> []" using lenR posR by (metis length_0_conv less_numeral_extra(3))
  have sub: "set ?L \<subseteq> {0, 1}" "set ?R \<subseteq> {0, 1}"
    using bin ms by (auto dest!: set_zip_rightD)
  have HL: "H_spec ?L = gini_H (rat_of_int (s_le ?a xs ys) / rat_of_nat (n_le ?a xs))"
    using H_spec_binary[OF sub(1) neL] by (simp only: sumL lenL)
  have HR: "H_spec ?R = gini_H (rat_of_int (sum_list ys - s_le ?a xs ys) / rat_of_nat (length xs - n_le ?a xs))"
    using H_spec_binary[OF sub(2) neR] by (simp only: sumR lenR)
  have tk: "take (length xs) ys = ys" using len by simp
  show ?thesis
    unfolding Gain_spec_def gain_le_def Let_def lf rf HL HR lenL lenR tk
    by simp
qed


section \<open>The claims\<close>

text \<open>C1. Six samples with one real feature, values 1 to 6, labels 0,0,0,1,1,1 and
  \<open>max_depth = 1\<close>: the constructor accepts the configuration, \<open>fit\<close> builds a root that
  splits feature 0 at 3.5 with a terminal left child of class 0 and a terminal right child of
  class 1, and \<open>predict\<close> on the rows [0] and [10] returns [0, 1].\<close>

theorem C1_end_to_end:
  "init [''real''] (Some 1) None None =
     Inr \<lparr>self_params = \<lparr>feature_types = [''real''], max_depth = Some 1,
                  min_samples_split = None, min_samples_leaf = None\<rparr>,
          self_tree = empty_dict\<rparr>
   \<and> fit \<lparr>self_params = \<lparr>feature_types = [''real''], max_depth = Some 1,
                  min_samples_split = None, min_samples_leaf = None\<rparr>,
          self_tree = empty_dict\<rparr>
         \<lparr>shape1 = 1, rows = [[1], [2], [3], [4], [5], [6]]\<rparr> [0, 0, 0, 1, 1, 1] =
     Inr \<lparr>self_params = \<lparr>feature_types = [''real''], max_depth = Some 1,
                  min_samples_split = None, min_samples_leaf = None\<rparr>,
          self_tree =
            Node (Some ''nonterminal'') None (Some 0) (Some (7 / 2)) None
              (Some (Node (Some ''terminal'') (Some 0) None None None None None))
              (Some (Node (Some ''terminal'') (Some 1) None None None None None))\<rparr>
   \<and> predict \<lparr>self_params = \<lparr>feature_types = [''real''], max_depth = Some 1,
                  min_samples_split = None, min_samples_leaf = None\<rparr>,
          self_tree =
            Node (Some ''nonterminal'') None (Some 0) (Some (7 / 2)) None
              (Some (Node (Some ''terminal'') (Some 0) None None None None None))
              (Some (Node (Some ''terminal'') (Some 1) None None None None None))\<rparr>
         \<lparr>shape1 = 1, rows = [[0], [10]]\<rparr> = Inr [0, 1]"
  by code_simp

text \<open>C2. For a feature vector with at least two distinct values and binary labels of the
  same length, \<open>find_best_split\<close> returns, and the gain it returns for each candidate threshold,
  computed from cumulative sums over the sorted labels, equals the reference gain
  \<open>Gain_spec\<close> of that threshold (the negated weighted impurities of the samples below the
  threshold and of the samples at or above it).\<close>

theorem C2_gain_refines_definition:
  assumes "2 \<le> card (set xs)" "length ys = length xs" "set ys \<subseteq> {0, 1}"
  shows "\<exists>ths Qs tb gb. find_best_split xs ys = Inr (ths, Qs, tb, gb)
           \<and> length Qs = length ths
           \<and> (\<forall>i < length ths. Qs ! i = Gain_spec xs ys (ths ! i))"
proof -
  let ?u = "unique xs"
  have two: "2 \<le> length ?u" using assms(1) by (simp add: length_unique)
  have len: "length xs \<le> length ys" using assms(2) by simp
  have fbs: "find_best_split xs ys =
     Inr (midpoints ?u, map (gain_le xs ys) (butlast ?u),
          midpoints ?u ! argmax (map (gain_le xs ys) (butlast ?u)),
          Max (set (map (gain_le xs ys) (butlast ?u))))"
    by (rule find_best_split_Inr[OF len two])
  have lq: "length (map (gain_le xs ys) (butlast ?u)) = length (midpoints ?u)"
    by (simp add: length_midpoints)
  have each: "\<forall>i < length (midpoints ?u).
      map (gain_le xs ys) (butlast ?u) ! i = Gain_spec xs ys (midpoints ?u ! i)"
  proof (intro allI impI)
    fix i assume "i < length (midpoints ?u)"
    then have i: "i < length ?u - 1" by (simp add: length_midpoints)
    then have "map (gain_le xs ys) (butlast ?u) ! i = gain_le xs ys (?u ! i)"
      by (simp add: nth_butlast)
    then show "map (gain_le xs ys) (butlast ?u) ! i = Gain_spec xs ys (midpoints ?u ! i)"
      by (simp only: gain_le_eq_Gain_spec[OF assms(2,3) i])
  qed
  from fbs lq each show ?thesis by blast
qed

text \<open>C2 at the features 3, 1, 2, 1 with labels 1, 0, 1, 0.\<close>

theorem C2_gain_refines_definition_witness:
  "2 \<le> card (set [3, 1, 2, 1 :: rat]) \<and> length [1, 0, 1, 0 :: int] = length [3, 1, 2, 1 :: rat]
   \<and> set [1, 0, 1, 0 :: int] \<subseteq> {0, 1}
   \<and> find_best_split [3, 1, 2, 1] [1, 0, 1, 0] = Inr ([3 / 2, 5 / 2], [0, - 1 / 3], 3 / 2, 0)
   \<and> Gain_spec [3, 1, 2, 1] [1, 0, 1, 0] (3 / 2) = 0
   \<and> Gain_spec [3, 1, 2, 1] [1, 0, 1, 0] (5 / 2) = - 1 / 3"
proof -
  have h1: "2 \<le> card (set [3, 1, 2, 1 :: rat])" by code_simp
  have h2: "length [1, 0, 1, 0 :: int] = length [3, 1, 2, 1 :: rat]" by simp
  have h3: "set [1, 0, 1, 0 :: int] \<subseteq> {0, 1}" by simp
  have ev: "find_best_split [3, 1, 2, 1] [1, 0, 1, 0] = Inr ([3 / 2, 5 / 2], [0, - 1 / 3], 3 / 2, 0)"
    by code_simp
  from C2_gain_refines_definition[OF h1 h2 h3] obtain ths Qs tb gb where
    r: "find_best_split [3, 1, 2, 1] [1, 0, 1, 0] = Inr (ths, Qs, tb, gb)"
    and f: "\<forall>i < length ths. Qs ! i = Gain_spec [3, 1, 2, 1] [1, 0, 1, 0] (ths ! i)"
    by blast
  from r ev have e: "ths = [3 / 2, 5 / 2]" "Qs = [0, - 1 / 3]" by auto
  have "(0::nat) < length [3 / 2, 5 / 2 :: rat]" "(1::nat) < length [3 / 2, 5 / 2 :: rat]" by simp_all
  with f[unfolded e] have "[0, - 1 / 3 :: rat] ! 0 = Gain_spec [3, 1, 2, 1] [1, 0, 1, 0] ([3 / 2, 5 / 2] ! 0)"
    "[0, - 1 / 3 :: rat] ! 1 = Gain_spec [3, 1, 2, 1] [1, 0, 1, 0] ([3 / 2, 5 / 2] ! 1)"
    by blast+
  then have "Gain_spec [3, 1, 2, 1] [1, 0, 1, 0] (3 / 2) = 0"
    "Gain_spec [3, 1, 2, 1] [1, 0, 1, 0] (5 / 2) = - 1 / 3" by simp_all
  with h1 h2 h3 ev show ?thesis by blast
qed

text \<open>C3. For a feature vector with at least two distinct values (and a target at least as
  long), \<open>find_best_split\<close> returns; its thresholds are exactly the means of neighbouring
  distinct sorted values; each threshold lies strictly between two observed values, is no
  observed value, and leaves samples both strictly below it and at or above it.\<close>

theorem C3_thresholds:
  assumes "2 \<le> card (set xs)" "length xs \<le> length ys"
  shows "\<exists>ths Qs tb gb. find_best_split xs ys = Inr (ths, Qs, tb, gb)
     \<and> ths = map (\<lambda>i. (sorted_list_of_set (set xs) ! i + sorted_list_of_set (set xs) ! Suc i) / 2)
                [0..<card (set xs) - 1]
     \<and> (\<forall>t \<in> set ths.
          (\<exists>a \<in> set xs. \<exists>b \<in> set xs. a < t \<and> t < b)
          \<and> t \<notin> set xs
          \<and> filter (\<lambda>x. x < t) xs \<noteq> []
          \<and> filter (\<lambda>x. t \<le> x) xs \<noteq> [])"
proof -
  let ?u = "unique xs"
  have two: "2 \<le> length ?u" using assms(1) by (simp add: length_unique)
  have form: "midpoints ?u = map (\<lambda>i. (sorted_list_of_set (set xs) ! i + sorted_list_of_set (set xs) ! Suc i) / 2)
                [0..<card (set xs) - 1]"
    using midpoints_nth_form[of ?u] by (simp add: unique_sorted_list_of_set)
  have each: "\<forall>t \<in> set (midpoints ?u).
          (\<exists>a \<in> set xs. \<exists>b \<in> set xs. a < t \<and> t < b)
          \<and> t \<notin> set xs
          \<and> filter (\<lambda>x. x < t) xs \<noteq> []
          \<and> filter (\<lambda>x. t \<le> x) xs \<noteq> []"
  proof
    fix t assume "t \<in> set (midpoints ?u)"
    then obtain i where i: "i < length ?u - 1" and t: "t = midpoints ?u ! i"
      by (auto simp: in_set_conv_nth length_midpoints)
    from midpoint_splits(1)[OF i] obtain a b where ab: "a \<in> set xs" "b \<in> set xs" "a < t" "t < b"
      unfolding t by blast
    have "filter (\<lambda>x. x < t) xs \<noteq> []" using ab(1,3) by (auto simp: filter_empty_conv)
    moreover have "filter (\<lambda>x. t \<le> x) xs \<noteq> []" using ab(2,4) by (auto simp: filter_empty_conv intro: less_imp_le)
    moreover have "t \<notin> set xs" unfolding t by (rule midpoint_splits(2)[OF i])
    ultimately show "(\<exists>a \<in> set xs. \<exists>b \<in> set xs. a < t \<and> t < b)
          \<and> t \<notin> set xs
          \<and> filter (\<lambda>x. x < t) xs \<noteq> []
          \<and> filter (\<lambda>x. t \<le> x) xs \<noteq> []" using ab by blast
  qed
  show ?thesis
    unfolding find_best_split_Inr[OF assms(2) two] using form each by blast
qed

text \<open>C3 at the features 1, 2, 2, 4: the thresholds are 1.5 and 3.\<close>

theorem C3_thresholds_witness:
  "2 \<le> card (set [1, 2, 2, 4 :: rat]) \<and> length [1, 2, 2, 4 :: rat] \<le> length [0, 1, 1, 0 :: int]
   \<and> (\<exists>Qs tb gb. find_best_split [1, 2, 2, 4] [0, 1, 1, 0] = Inr ([3 / 2, 3], Qs, tb, gb))"
proof -
  have h1: "2 \<le> card (set [1, 2, 2, 4 :: rat])" by simp
  have h2: "length [1, 2, 2, 4 :: rat] \<le> length [0, 1, 1, 0 :: int]" by simp
  have s: "sorted_list_of_set (set [1, 2, 2, 4 :: rat]) = [1, 2, 4]"
    by (simp add: sorted_list_of_set_sort_remdups)
  have c: "card (set [1, 2, 2, 4 :: rat]) = 3" by simp
  have u: "[0..<3 - 1] = [0, Suc 0]" by (simp add: upt_rec)
  from C3_thresholds[OF h1 h2] obtain ths Qs tb gb where
    "find_best_split [1, 2, 2, 4] [0, 1, 1, 0] = Inr (ths, Qs, tb, gb)"
    "ths = map (\<lambda>i. (sorted_list_of_set (set [1, 2, 2, 4 :: rat]) ! i
                    + sorted_list_of_set (set [1, 2, 2, 4 :: rat]) ! Suc i) / 2)
                [0..<card (set [1, 2, 2, 4 :: rat]) - 1]"
    by blast
  then have "find_best_split [1, 2, 2, 4] [0, 1, 1, 0] = Inr ([3 / 2, 3], Qs, tb, gb)"
    unfolding s c u by simp
  with h1 h2 show ?thesis by blast
qed

text \<open>C4. For a feature vector with at least two distinct values and a target of the same
  length, the returned best gain is the maximum of the gains, the returned best threshold
  attains it, and no threshold that attains the maximum is smaller than the returned one.\<close>

theorem C4_tie_break:
  assumes "2 \<le> card (set xs)" "length ys = length xs"
  shows "\<exists>ths Qs tb gb. find_best_split xs ys = Inr (ths, Qs, tb, gb)
     \<and> length Qs = length ths
     \<and> gb = Max (set Qs)
     \<and> (\<exists>i < length ths. ths ! i = tb \<and> Qs ! i = gb)
     \<and> (\<forall>j < length ths. Qs ! j = Max (set Qs) \<longrightarrow> tb \<le> ths ! j)"
proof -
  let ?u = "unique xs"
  let ?ths = "midpoints ?u"
  let ?Qs = "map (gain_le xs ys) (butlast ?u)"
  let ?k = "argmax ?Qs"
  have two: "2 \<le> length ?u" using assms(1) by (simp add: length_unique)
  have len: "length xs \<le> length ys" using assms(2) by simp
  have lq: "length ?Qs = length ?ths" by (simp add: length_midpoints)
  have ne: "?Qs \<noteq> []" using two by (cases ?u rule: rev_cases) auto
  note am = argmax_props[OF ne]
  have k: "?k < length ?ths" using am(1) lq by simp
  have mx: "?Qs ! ?k = Max (set ?Qs)"
  proof (rule antisym)
    show "?Qs ! ?k \<le> Max (set ?Qs)" using am(1) by (intro Max_ge) (auto intro: nth_mem)
    show "Max (set ?Qs) \<le> ?Qs ! ?k" using am(2) ne by (intro Max.boundedI) auto
  qed
  have srt: "sorted_wrt (<) ?ths" by (rule midpoints_strict_sorted[OF unique_strict])
  have first: "\<forall>j < length ?ths. ?Qs ! j = Max (set ?Qs) \<longrightarrow> ?ths ! ?k \<le> ?ths ! j"
  proof (intro allI impI)
    fix j assume j: "j < length ?ths" and e: "?Qs ! j = Max (set ?Qs)"
    have "\<not> j < ?k" using am(3) e mx by force
    then have "?k \<le> j" by simp
    then show "?ths ! ?k \<le> ?ths ! j"
      using srt j by (cases "?k = j") (auto simp: sorted_wrt_iff_nth_less intro: less_imp_le)
  qed
  have fbs: "find_best_split xs ys = Inr (?ths, ?Qs, ?ths ! ?k, Max (set ?Qs))"
    by (rule find_best_split_Inr[OF len two])
  have ex: "\<exists>i < length ?ths. ?ths ! i = ?ths ! ?k \<and> ?Qs ! i = Max (set ?Qs)"
    using k mx by blast
  from fbs lq ex first show ?thesis by blast
qed

text \<open>C4 at the features 1, 2, 3, 4 with labels 0, 1, 1, 0: the thresholds 1.5 and 3.5 tie at the
  maximal gain, and 1.5 is returned.\<close>

theorem C4_tie_break_witness:
  "2 \<le> card (set [1, 2, 3, 4 :: rat]) \<and> length [0, 1, 1, 0 :: int] = length [1, 2, 3, 4 :: rat]
   \<and> find_best_split [1, 2, 3, 4] [0, 1, 1, 0]
       = Inr ([3 / 2, 5 / 2, 7 / 2], [- 1 / 3, - 1 / 2, - 1 / 3], 3 / 2, - 1 / 3)
   \<and> (\<forall>j < length [3 / 2, 5 / 2, 7 / 2 :: rat].
         [- 1 / 3, - 1 / 2, - 1 / 3 :: rat] ! j = Max (set [- 1 / 3, - 1 / 2, - 1 / 3])
           \<longrightarrow> (3 / 2 :: rat) \<le> [3 / 2, 5 / 2, 7 / 2] ! j)"
proof -
  have h1: "2 \<le> card (set [1, 2, 3, 4 :: rat])" by simp
  have h2: "length [0, 1, 1, 0 :: int] = length [1, 2, 3, 4 :: rat]" by simp
  have ev: "find_best_split [1, 2, 3, 4] [0, 1, 1, 0]
       = Inr ([3 / 2, 5 / 2, 7 / 2], [- 1 / 3, - 1 / 2, - 1 / 3], 3 / 2, - 1 / 3)"
    by code_simp
  from C4_tie_break[OF h1 h2] obtain ths Qs tb gb where
    r: "find_best_split [1, 2, 3, 4] [0, 1, 1, 0] = Inr (ths, Qs, tb, gb)"
    and f: "\<forall>j < length ths. Qs ! j = Max (set Qs) \<longrightarrow> tb \<le> ths ! j"
    by blast
  from r ev have "ths = [3 / 2, 5 / 2, 7 / 2]" "Qs = [- 1 / 3, - 1 / 2, - 1 / 3]" "tb = 3 / 2"
    by auto
  with f have "\<forall>j < length [3 / 2, 5 / 2, 7 / 2 :: rat].
         [- 1 / 3, - 1 / 2, - 1 / 3 :: rat] ! j = Max (set [- 1 / 3, - 1 / 2, - 1 / 3])
           \<longrightarrow> (3 / 2 :: rat) \<le> [3 / 2, 5 / 2, 7 / 2] ! j"
    by simp
  with h1 h2 ev show ?thesis by blast
qed

end
